theory Spec2Isabelle
  imports Complex_Main
begin

section \<open>Matrices and windows\<close>

text \<open>
  A single-channel \<open>cv::Mat\<close> is a list of rows, each row a list of cells; the cell of
  row \<open>r\<close> and column \<open>c\<close> is \<open>m ! r ! c\<close>. A \<open>cv::Size\<close> is the pair (width, height).
  Copying cells does no arithmetic, so everything in this section is polymorphic in the
  cell type.
\<close>

type_synonym 'a mat = "'a list list"

type_synonym size2 = "nat \<times> nat"

definition rows :: "'a mat \<Rightarrow> nat" where
  "rows m = length m"

definition cols :: "'a mat \<Rightarrow> nat" where
  "cols m = (case m of [] \<Rightarrow> 0 | row # _ \<Rightarrow> length row)"

definition is_mat :: "nat \<Rightarrow> nat \<Rightarrow> 'a mat \<Rightarrow> bool" where
  \<comment> \<open>the shape invariant of a \<open>cv::Mat\<close> with \<open>h\<close> rows and \<open>w\<close> columns\<close>
  "is_mat h w m = (length m = h \<and> list_all (\<lambda>row. length row = w) m)"

definition Mat_fill :: "size2 \<Rightarrow> 'a \<Rightarrow> 'a mat" where
  \<comment> \<open>\<open>Mat m(size, type, Scalar(v))\<close> and \<open>Mat::zeros(size, type)\<close>\<close>
  "Mat_fill sz v = replicate (snd sz) (replicate (fst sz) v)"

datatype rect = Rect nat nat nat nat
  \<comment> \<open>\<open>Rect(x, y, width, height)\<close>\<close>

definition inside :: "rect \<Rightarrow> nat \<Rightarrow> nat \<Rightarrow> bool" where
  \<comment> \<open>does the window hold the cell of row \<open>r\<close>, column \<open>c\<close>?\<close>
  "inside rc r c = (case rc of Rect x y w h \<Rightarrow> y \<le> r \<and> r < y + h \<and> x \<le> c \<and> c < x + w)"

definition roi :: "'a mat \<Rightarrow> rect \<Rightarrow> 'a mat" where
  \<comment> \<open>the cells seen through \<open>Mat(m, rc)\<close>\<close>
  "roi m rc = (case rc of Rect x y w h \<Rightarrow>
     map (\<lambda>row. take w (drop x row)) (take h (drop y m)))"

definition copyTo :: "'a mat \<Rightarrow> 'a mat \<Rightarrow> rect \<Rightarrow> 'a mat" where
  \<comment> \<open>\<open>src.copyTo(q)\<close> for a window \<open>q = Mat(m, rc)\<close> of the size of \<open>src\<close>: the cells of
      \<open>src\<close> are written through the window into the buffer \<open>m\<close>, which is returned\<close>
  "copyTo src m rc = (case rc of Rect x y w h \<Rightarrow>
     map (\<lambda>r. map (\<lambda>c. if inside rc r c then src ! (r - y) ! (c - x) else m ! r ! c)
                 [0..<length (m ! r)])
         [0..<length m])"

definition swapQuadrants :: "'a mat \<Rightarrow> 'a mat" where
  \<comment> \<open>\<open>getWienerFilter\<close>, lines 116-131: the four windows share the buffer \<open>freqPSF\<close>,
      \<open>tmp\<close> is a buffer of its own\<close>
  "swapQuadrants psf =
    (let freqPSF = psf;
         cx = cols freqPSF div 2;
         cy = rows freqPSF div 2;
         q0 = Rect 0 0 cx cy;
         q1 = Rect cx 0 cx cy;
         q2 = Rect 0 cy cx cy;
         q3 = Rect cx cy cx cy;
         tmp = roi freqPSF q0;
         freqPSF = copyTo (roi freqPSF q3) freqPSF q0;
         freqPSF = copyTo tmp freqPSF q3;
         tmp = roi freqPSF q1;
         freqPSF = copyTo (roi freqPSF q2) freqPSF q1;
         freqPSF = copyTo tmp freqPSF q2
     in freqPSF)"

definition centerQuadrants :: "'a mat \<Rightarrow> 'a mat" where
  \<comment> \<open>the operation as section 4.3 of the specification words it: top-left and
      bottom-right quadrants exchanged, top-right and bottom-left exchanged, the
      quadrant boundaries at the floored half-dimensions\<close>
  "centerQuadrants g =
    (let cx = cols g div 2; cy = rows g div 2 in
     map (\<lambda>r. map (\<lambda>c.
            if r < 2 * cy \<and> c < 2 * cx
            then g ! ((r + cy) mod (2 * cy)) ! ((c + cx) mod (2 * cx))
            else g ! r ! c)
          [0..<length (g ! r)])
      [0..<length g])"


section \<open>Floating-point cells\<close>

text \<open>
  A \<open>CV_32F\<close> cell (and a C++ \<open>double\<close>) is a finite value, an infinity or a NaN. The
  finite values are taken as exact reals: rounding, overflow and the sign of zero are
  left out of the model. The exceptional values follow IEEE 754, so that a division by
  zero is a value of the model and not the \<open>0\<close> of HOL's total division.
\<close>

datatype f32 = Fin real | PInf | NInf | NaN

fun is_fin :: "f32 \<Rightarrow> bool" where
  "is_fin (Fin a) = True"
| "is_fin _ = False"

fun val :: "f32 \<Rightarrow> real" where
  "val (Fin a) = a"
| "val _ = 0"

fun f_sign :: "f32 \<Rightarrow> real" where
  "f_sign (Fin a) = sgn a"
| "f_sign PInf = 1"
| "f_sign NInf = - 1"
| "f_sign NaN = 0"

definition inf_of :: "real \<Rightarrow> f32" where
  \<comment> \<open>the infinity of the given sign; no sign, no value\<close>
  "inf_of s = (if 0 < s then PInf else if s < 0 then NInf else NaN)"

fun f_neg :: "f32 \<Rightarrow> f32" where
  "f_neg (Fin a) = Fin (- a)"
| "f_neg PInf = NInf"
| "f_neg NInf = PInf"
| "f_neg NaN = NaN"

fun f_abs :: "f32 \<Rightarrow> f32" where
  "f_abs (Fin a) = Fin \<bar>a\<bar>"
| "f_abs PInf = PInf"
| "f_abs NInf = PInf"
| "f_abs NaN = NaN"

fun f_add :: "f32 \<Rightarrow> f32 \<Rightarrow> f32" where
  "f_add (Fin a) (Fin b) = Fin (a + b)"
| "f_add NaN y = NaN"
| "f_add x NaN = NaN"
| "f_add PInf NInf = NaN"
| "f_add NInf PInf = NaN"
| "f_add PInf y = PInf"
| "f_add NInf y = NInf"
| "f_add (Fin a) y = y"

definition f_sub :: "f32 \<Rightarrow> f32 \<Rightarrow> f32" where
  "f_sub x y = f_add x (f_neg y)"

fun f_mul :: "f32 \<Rightarrow> f32 \<Rightarrow> f32" where
  "f_mul (Fin a) (Fin b) = Fin (a * b)"
| "f_mul NaN y = NaN"
| "f_mul x NaN = NaN"
| "f_mul x y = inf_of (f_sign x * f_sign y)"

fun f_div :: "f32 \<Rightarrow> f32 \<Rightarrow> f32" where
  "f_div (Fin a) (Fin b) = (if b = 0 then inf_of (sgn a) else Fin (a / b))"
| "f_div NaN y = NaN"
| "f_div x NaN = NaN"
| "f_div (Fin a) y = Fin 0"
| "f_div x (Fin b) = inf_of (f_sign x * (if b < 0 then - 1 else 1))"
| "f_div x y = NaN"

section \<open>Element-wise matrix operations\<close>

text \<open>
  The cell-wise operations are OpenCV's; the program calls them, and sections 4.2, 4.4
  and 4.5 of the specification say what they compute.
\<close>

definition size_of :: "'a mat \<Rightarrow> size2" where
  \<comment> \<open>\<open>m.size()\<close>\<close>
  "size_of m = (cols m, rows m)"

definition cv_sum :: "f32 mat \<Rightarrow> f32" where
  \<comment> \<open>\<open>cv::sum\<close> of a single-channel matrix\<close>
  "cv_sum m = foldr f_add (concat m) (Fin 0)"

definition mat_div_scalar :: "f32 mat \<Rightarrow> f32 \<Rightarrow> f32 mat" where
  \<comment> \<open>\<open>m / s\<close>\<close>
  "mat_div_scalar m s = map (map (\<lambda>v. f_div v s)) m"

definition mat_add_scalar :: "f32 mat \<Rightarrow> f32 \<Rightarrow> f32 mat" where
  \<comment> \<open>\<open>m += s\<close>\<close>
  "mat_add_scalar m s = map (map (\<lambda>v. f_add v s)) m"

definition cv_abs :: "f32 mat \<Rightarrow> f32 mat" where
  "cv_abs m = map (map f_abs) m"

definition cv_pow2 :: "f32 mat \<Rightarrow> f32 mat" where
  \<comment> \<open>\<open>cv::pow(m, 2, dst)\<close>: every cell times itself\<close>
  "cv_pow2 m = map (map (\<lambda>v. f_mul v v)) m"

definition cv_divide :: "f32 mat \<Rightarrow> f32 mat \<Rightarrow> f32 mat" where
  \<comment> \<open>\<open>cv::divide(a, b, dst)\<close>, cell by cell. Where a cell of \<open>b\<close> is zero the library's
      result depends on its version (zero, or the IEEE value taken here); no theorem
      below divides by a zero cell through this operation.\<close>
  "cv_divide a b = map2 (map2 f_div) a b"

section \<open>Two-channel matrices and the library's transform\<close>

type_synonym c32 = "f32 \<times> f32"
  \<comment> \<open>a cell of a two-channel matrix: (real, imaginary)\<close>

definition c_add :: "c32 \<Rightarrow> c32 \<Rightarrow> c32" where
  "c_add a b = (f_add (fst a) (fst b), f_add (snd a) (snd b))"

definition c_mul :: "c32 \<Rightarrow> c32 \<Rightarrow> c32" where
  \<comment> \<open>\<open>(a + bi)(c + di) = (ac - bd) + (ad + bc)i\<close>\<close>
  "c_mul a b = (f_sub (f_mul (fst a) (fst b)) (f_mul (snd a) (snd b)),
                f_add (f_mul (fst a) (snd b)) (f_mul (snd a) (fst b)))"

definition c_scale :: "f32 \<Rightarrow> c32 \<Rightarrow> c32" where
  \<comment> \<open>both channels times a real factor\<close>
  "c_scale s z = (f_mul s (fst z), f_mul s (snd z))"

definition c_sum :: "c32 list \<Rightarrow> c32" where
  "c_sum zs = foldr c_add zs (Fin 0, Fin 0)"

definition cv_merge :: "f32 mat \<times> f32 mat \<Rightarrow> c32 mat" where
  \<comment> \<open>\<open>cv::merge(planes, 2, dst)\<close>\<close>
  "cv_merge planes = map2 zip (fst planes) (snd planes)"

definition cv_split :: "c32 mat \<Rightarrow> f32 mat \<times> f32 mat" where
  \<comment> \<open>\<open>cv::split(src, planes)\<close>\<close>
  "cv_split m = (map (map fst) m, map (map snd) m)"

datatype cv_error = AssertionFailed

definition mulSpectrums :: "c32 mat \<Rightarrow> c32 mat \<Rightarrow> cv_error + c32 mat" where
  \<comment> \<open>\<open>cv::mulSpectrums(a, b, c, 0)\<close>: the cell-wise complex product; the library
      asserts that both spectra have one size\<close>
  "mulSpectrums a b =
     (if size_of a \<noteq> size_of b then Inl AssertionFailed else Inr (map2 (map2 c_mul) a b))"

definition twiddle :: "bool \<Rightarrow> nat \<Rightarrow> nat \<Rightarrow> c32" where
  \<comment> \<open>\<open>exp(-2 pi i k / n)\<close>, and its conjugate for the inverse transform\<close>
  "twiddle bwd n k =
     (let a = 2 * pi * real k / real n
      in (Fin (cos a), Fin (if bwd then sin a else - sin a)))"

definition dft2 :: "bool \<Rightarrow> c32 mat \<Rightarrow> c32 mat" where
  \<comment> \<open>Modelled from the spec: \<open>cv::dft\<close> is OpenCV's, not this repository's. Section 4.1
      has it as the 2D Discrete Fourier Transform, any correct implementation being
      acceptable; this is the defining double sum, unscaled.\<close>
  "dft2 bwd m =
     (let h = rows m; w = cols m in
      map (\<lambda>u. map (\<lambda>v.
             c_sum (concat (map (\<lambda>r. map (\<lambda>c.
                      c_mul (m ! r ! c) (c_mul (twiddle bwd h (u * r)) (twiddle bwd w (v * c))))
                    [0..<w]) [0..<h])))
           [0..<w]) [0..<h])"

datatype dft_flag = DFT_INVERSE | DFT_SCALE

definition cv_dft :: "c32 mat \<Rightarrow> dft_flag list \<Rightarrow> c32 mat" where
  \<comment> \<open>Modelled from the spec: \<open>cv::dft(src, dst, flags)\<close>. \<open>DFT_SCALE\<close> divides the
      result by the number of cells (section 4.1: the scale \<open>1/(width*height)\<close>),
      \<open>DFT_INVERSE\<close> asks for the inverse transform.\<close>
  "cv_dft src flags =
     (let y = dft2 (DFT_INVERSE \<in> set flags) src;
          n = rows src * cols src
      in if DFT_SCALE \<in> set flags
         then map (map (c_scale (Fin (1 / real n)))) y
         else y)"

definition cv_idft :: "c32 mat \<Rightarrow> dft_flag list \<Rightarrow> c32 mat" where
  \<comment> \<open>\<open>cv::idft(src, dst, flags)\<close> is \<open>cv::dft\<close> with \<open>DFT_INVERSE\<close> added\<close>
  "cv_idft src flags = cv_dft src (DFT_INVERSE # flags)"

section \<open>Drawing\<close>

definition in_disk :: "int \<times> int \<Rightarrow> int \<Rightarrow> nat \<Rightarrow> nat \<Rightarrow> bool" where
  \<comment> \<open>is the cell of column \<open>x\<close>, row \<open>y\<close> within distance \<open>radius\<close> of the centre?\<close>
  "in_disk center radius x y =
     (0 \<le> radius \<and> (int x - fst center)\<^sup>2 + (int y - snd center)\<^sup>2 \<le> radius\<^sup>2)"

definition circle :: "f32 mat \<Rightarrow> int \<times> int \<Rightarrow> int \<Rightarrow> f32 \<Rightarrow> f32 mat" where
  \<comment> \<open>Modelled from the spec: \<open>cv::circle(img, center, radius, color, -1, lineType)\<close>
      is OpenCV's, not this repository's. Section 4.2: every cell within Euclidean
      distance \<open>radius\<close> of the centre gets the fill value (a filled disk, the boundary
      included, so that radius 0 is the single centre cell); the other cells keep
      their value.\<close>
  "circle img center radius color =
     map (\<lambda>r. map (\<lambda>c. if in_disk center radius c r then color else img ! r ! c)
                 [0..<length (img ! r)])
         [0..<length img]"

section \<open>The program\<close>

text \<open>
  The two module-level variables of lines 20-21. A function that reads them takes the
  state of the process as an argument: a record with these two fields and whatever
  else the process holds.
\<close>

record globals =
  radius_slider :: int
  snr_slider :: int

definition getWienerFilter :: "'a globals_scheme \<Rightarrow> size2 \<Rightarrow> f32 mat" where
  \<comment> \<open>lines 103-143; the result is \<open>imgOut\<close>. The radius and the ratio are read from
      the two module-level variables, not from the arguments. The quadrant exchange of
      lines 118-131 is \<open>swapQuadrants\<close>.\<close>
  "getWienerFilter g bbox =
    (let radW = fst bbox;
         radH = snd bbox;
         point = (int (radW div 2), int (radH div 2));
         psf = Mat_fill bbox (Fin 0);
         psf = circle psf point (radius_slider g) (Fin 255);
         psf = mat_div_scalar psf (cv_sum psf);
         freqPSF = psf;
         freqPSF = swapQuadrants freqPSF;
         planes = (freqPSF, Mat_fill (size_of freqPSF) (Fin 0));
         cI = cv_merge planes;
         cI = cv_dft cI [];
         planes = cv_split cI;
         degrad = cv_pow2 (cv_abs (fst planes));
         degrad = mat_add_scalar degrad (f_div (Fin 1) (Fin (real_of_int (snr_slider g))));
         imgOut = cv_divide (fst planes) degrad
     in imgOut)"

definition filter_img :: "f32 mat \<Rightarrow> f32 mat \<Rightarrow> cv_error + f32 mat" where
  \<comment> \<open>\<open>filter\<close>, lines 82-98; the result is \<open>outputImg\<close>\<close>
  "filter_img inputImg H =
    (let planes = (inputImg, Mat_fill (size_of inputImg) (Fin 0));
         complexI = cv_merge planes;
         complexI = cv_dft complexI [DFT_SCALE];
         planesH = (H, Mat_fill (size_of H) (Fin 0));
         complexH = cv_merge planesH
     in case mulSpectrums complexI complexH of
          Inl e \<Rightarrow> Inl e
        | Inr complexIH \<Rightarrow>
            (let complexIH = cv_idft complexIH [];
                 planes = cv_split complexIH
             in Inr (fst planes)))"

definition on_radius_trackbar :: "'a globals_scheme \<Rightarrow> int \<Rightarrow> f32 mat \<Rightarrow> cv_error + f32 mat" where
  \<comment> \<open>lines 49-60, up to the display: the result is \<open>imgMod\<close>. The parameter named
      \<open>radius_slider\<close> hides the module-level variable inside this function and is
      not used; \<open>getWienerFilter\<close> reads the module-level one.\<close>
  "on_radius_trackbar g radius_slider_arg imgOrig =
    (let bbox = (cols imgOrig, rows imgOrig);
         imgFiltered = getWienerFilter g bbox
     in filter_img imgOrig imgFiltered)"

definition on_snr_trackbar :: "'a globals_scheme \<Rightarrow> int \<Rightarrow> f32 mat \<Rightarrow> cv_error + f32 mat" where
  \<comment> \<open>lines 65-76, up to the display; the parameter is not used here either\<close>
  "on_snr_trackbar g snr_slider_arg imgOrig =
    (let bbox = (cols imgOrig, rows imgOrig);
         imgFiltered = getWienerFilter g bbox
     in filter_img imgOrig imgFiltered)"

section \<open>The construction as the specification words it\<close>

definition buildDiskPSF :: "f32 \<Rightarrow> size2 \<Rightarrow> int \<Rightarrow> f32 mat" where
  \<comment> \<open>section 4.2: a zero grid, the disk around \<open>(w/2, h/2)\<close> filled with a constant,
      every cell divided by the sum of all cells\<close>
  "buildDiskPSF fill sz radius =
    (let disk = map (\<lambda>y. map (\<lambda>x.
                   if in_disk (int (fst sz div 2), int (snd sz div 2)) radius x y
                   then fill else Fin 0) [0..<fst sz]) [0..<snd sz]
     in map (map (\<lambda>v. f_div v (cv_sum disk))) disk)"

definition forwardDFT :: "bool \<Rightarrow> f32 mat \<Rightarrow> c32 mat" where
  \<comment> \<open>section 4.1: the forward transform of a real grid, the 2D Discrete Fourier
      Transform of the grid with a zero imaginary plane; \<open>scaled\<close> says whether the
      result carries the factor \<open>1/(width*height)\<close> that section 4.1 asks for\<close>
  "forwardDFT scaled G =
    (let X = dft2 False (map (map (\<lambda>x. (x, Fin 0))) G)
     in if scaled then map (map (c_scale (Fin (1 / real (rows G * cols G))))) X else X)"

definition wienerSteps :: "bool \<Rightarrow> f32 \<Rightarrow> size2 \<Rightarrow> int \<Rightarrow> int \<Rightarrow> f32 mat" where
  \<comment> \<open>the steps of section 4.4 in their order: the disk PSF, quadrant centering, the
      forward transform (scaled or not), its real plane \<open>H\<close>, then
      \<open>degrad = |H|^2 + 1/snr\<close> and \<open>H / degrad\<close> cell by cell\<close>
  "wienerSteps scaled fill sz radius snr =
    (let H = map (map fst) (forwardDFT scaled (centerQuadrants (buildDiskPSF fill sz radius)));
         degrad = map (map (\<lambda>v. f_add (f_mul (f_abs v) (f_abs v))
                                      (f_div (Fin 1) (Fin (real_of_int snr))))) H
     in map2 (map2 f_div) H degrad)"

datatype spec_error = InvalidParameter

definition buildWienerFilter :: "f32 \<Rightarrow> size2 \<Rightarrow> int \<Rightarrow> int \<Rightarrow> spec_error + f32 mat" where
  \<comment> \<open>section 4.4 as it is worded: the steps with the scaled transform of section 4.1,
      and the failure that sections 4.4 and 7 ask for when \<open>snr \<le> 0\<close> or
      \<open>radius < 0\<close>\<close>
  "buildWienerFilter fill sz radius snr =
    (if snr \<le> 0 \<or> radius < 0 then Inl InvalidParameter
     else Inr (wienerSteps True fill sz radius snr))"

section \<open>Notions used in the statements and proofs\<close>

definition fin_mat :: "f32 mat \<Rightarrow> bool" where
  \<comment> \<open>every cell is a finite value\<close>
  "fin_mat m = list_all (list_all is_fin) m"

definition painted :: "'a globals_scheme \<Rightarrow> size2 \<Rightarrow> f32 mat" where
  \<comment> \<open>\<open>getWienerFilter\<close> up to line 112: the value of \<open>psf\<close> before the division\<close>
  "painted g bbox =
     circle (Mat_fill bbox (Fin 0)) (int (fst bbox div 2), int (snd bbox div 2))
       (radius_slider g) (Fin 255)"

definition getWienerFilter_psf :: "'a globals_scheme \<Rightarrow> size2 \<Rightarrow> f32 mat" where
  \<comment> \<open>\<open>getWienerFilter\<close> up to line 113: the value of \<open>psf\<close>\<close>
  "getWienerFilter_psf g bbox =
    (let radW = fst bbox;
         radH = snd bbox;
         point = (int (radW div 2), int (radH div 2));
         psf = Mat_fill bbox (Fin 0);
         psf = circle psf point (radius_slider g) (Fin 255);
         psf = mat_div_scalar psf (cv_sum psf)
     in psf)"

definition getWienerFilter_cI :: "'a globals_scheme \<Rightarrow> size2 \<Rightarrow> c32 mat" where
  \<comment> \<open>\<open>getWienerFilter\<close> up to line 135: the value of \<open>cI\<close> after \<open>cv::dft(cI, cI)\<close>\<close>
  "getWienerFilter_cI g bbox =
    (let freqPSF = swapQuadrants (getWienerFilter_psf g bbox);
         planes = (freqPSF, Mat_fill (size_of freqPSF) (Fin 0));
         cI = cv_merge planes;
         cI = cv_dft cI []
     in cI)"

definition filter_complexI :: "f32 mat \<Rightarrow> c32 mat" where
  \<comment> \<open>\<open>filter\<close> up to line 87: the value of \<open>complexI\<close> after the transform\<close>
  "filter_complexI inputImg =
    (let planes = (inputImg, Mat_fill (size_of inputImg) (Fin 0));
         complexI = cv_merge planes;
         complexI = cv_dft complexI [DFT_SCALE]
     in complexI)"

definition of_c :: "complex \<Rightarrow> c32" where
  \<comment> \<open>a complex number as a two-channel cell\<close>
  "of_c z = (Fin (Re z), Fin (Im z))"

definition omega :: "bool \<Rightarrow> nat \<Rightarrow> nat \<Rightarrow> complex" where
  \<comment> \<open>the value of \<open>twiddle\<close> as a complex number\<close>
  "omega bwd n k = cis ((if bwd then 1 else - 1) * (2 * pi * real k / real n))"

definition cdft :: "bool \<Rightarrow> nat \<Rightarrow> nat \<Rightarrow> (nat \<Rightarrow> nat \<Rightarrow> complex) \<Rightarrow> nat \<Rightarrow> nat \<Rightarrow> complex" where
  \<comment> \<open>the double sum of \<open>dft2\<close> over the complex numbers\<close>
  "cdft bwd h w f u v = (\<Sum>r<h. \<Sum>c<w. f r c * (omega bwd h (u * r) * omega bwd w (v * c)))"

section \<open>Intermediate values\<close>

text \<open>The two functions in terms of their intermediate values.\<close>

lemma getWienerFilter_blocks:
  "getWienerFilter g bbox =
    (let planes = cv_split (getWienerFilter_cI g bbox);
         degrad = cv_pow2 (cv_abs (fst planes));
         degrad = mat_add_scalar degrad (f_div (Fin 1) (Fin (real_of_int (snr_slider g))));
         imgOut = cv_divide (fst planes) degrad
     in imgOut)"
  by (simp only: getWienerFilter_def getWienerFilter_cI_def getWienerFilter_psf_def Let_def)

lemma filter_img_blocks:
  "filter_img inputImg H =
    (case mulSpectrums (filter_complexI inputImg) (cv_merge (H, Mat_fill (size_of H) (Fin 0))) of
       Inl e \<Rightarrow> Inl e
     | Inr complexIH \<Rightarrow> Inr (fst (cv_split (cv_idft complexIH []))))"
  by (simp only: filter_img_def filter_complexI_def Let_def)

section \<open>Evaluation on concrete inputs\<close>

text \<open>The equations that a concrete call of the program unfolds.\<close>

lemmas eval_defs = getWienerFilter_blocks getWienerFilter_cI_def getWienerFilter_psf_def Let_def
  Mat_fill_def circle_def in_disk_def mat_div_scalar_def cv_sum_def swapQuadrants_def
  cols_def rows_def roi_def copyTo_def inside_def size_of_def cv_merge_def cv_dft_def
  dft2_def twiddle_def c_sum_def c_mul_def c_add_def c_scale_def f_sub_def cv_split_def
  cv_pow2_def cv_abs_def mat_add_scalar_def cv_divide_def inf_of_def

section \<open>Windows: cell-wise behaviour\<close>

lemma is_mat_nth: "is_mat h w m \<Longrightarrow> r < h \<Longrightarrow> length (m ! r) = w"
  by (simp add: is_mat_def list_all_length)

lemma is_mat_rows: "is_mat h w m \<Longrightarrow> rows m = h"
  by (simp add: is_mat_def rows_def)

lemma is_mat_cols: "is_mat h w m \<Longrightarrow> 0 < h \<Longrightarrow> cols m = w"
  by (cases m) (simp_all add: is_mat_def cols_def)

lemma mat_eqI:
  assumes "is_mat h w a" and "is_mat h w b"
    and "\<And>r c. r < h \<Longrightarrow> c < w \<Longrightarrow> a ! r ! c = b ! r ! c"
  shows "a = b"
proof (rule nth_equalityI)
  show "length a = length b"
    using assms(1,2) by (simp add: is_mat_def)
next
  fix r assume "r < length a"
  then have r: "r < h" using assms(1) by (simp add: is_mat_def)
  show "a ! r = b ! r"
  proof (rule nth_equalityI)
    show "length (a ! r) = length (b ! r)"
      using r assms(1,2) by (simp add: is_mat_nth)
  next
    fix c assume "c < length (a ! r)"
    then have "c < w" using r assms(1) by (simp add: is_mat_nth)
    then show "a ! r ! c = b ! r ! c" using r assms(3) by simp
  qed
qed

lemma is_mat_Mat_fill: "is_mat h w (Mat_fill (w, h) v)"
  by (simp add: is_mat_def Mat_fill_def list_all_length)

lemma roi_nth:
  assumes "is_mat h w m" and "y + k \<le> h" and "x + l \<le> w" and "r < k" and "c < l"
  shows "roi m (Rect x y l k) ! r ! c = m ! (y + r) ! (x + c)"
proof -
  have len: "length m = h" using assms(1) by (simp add: is_mat_def)
  have row: "length (m ! (y + r)) = w"
    using assms by (intro is_mat_nth[OF assms(1)]) simp
  have "roi m (Rect x y l k) ! r = take l (drop x (m ! (y + r)))"
    using assms len by (simp add: roi_def)
  then show ?thesis using assms row by simp
qed

lemma is_mat_copyTo: "is_mat h w m \<Longrightarrow> is_mat h w (copyTo src m rc)"
  by (cases rc) (simp add: copyTo_def is_mat_def list_all_length)

lemma copyTo_nth:
  assumes "is_mat h w m" and "r < h" and "c < w"
  shows "copyTo src m (Rect x y l k) ! r ! c =
         (if inside (Rect x y l k) r c then src ! (r - y) ! (c - x) else m ! r ! c)"
proof -
  have "length m = h" using assms(1) by (simp add: is_mat_def)
  moreover have "length (m ! r) = w" using assms by (simp add: is_mat_nth)
  ultimately show ?thesis using assms by (simp add: copyTo_def)
qed

section \<open>Quadrant centering\<close>

lemma half_shift_mod:
  fixes r k :: nat
  assumes "r < 2 * k"
  shows "(r + k) mod (2 * k) = (if r < k then r + k else r - k)"
proof (cases "r < k")
  case True
  then show ?thesis by simp
next
  case False
  then have "r + k = (r - k) + 2 * k" by simp
  then have "(r + k) mod (2 * k) = (r - k) mod (2 * k)"
    by (metis mod_add_self2)
  then show ?thesis using False assms by simp
qed

lemma half_shift_twice:
  fixes r k :: nat
  assumes "r < 2 * k"
  shows "((r + k) mod (2 * k) + k) mod (2 * k) = r"
proof -
  have "(r + k) mod (2 * k) < 2 * k" using assms by simp
  then show ?thesis using assms by (simp add: half_shift_mod split: if_splits)
qed

lemma half_shift_less:
  fixes r h :: nat
  assumes "r < 2 * (h div 2)"
  shows "(r + h div 2) mod (2 * (h div 2)) < h"
proof -
  have "(r + h div 2) mod (2 * (h div 2)) < 2 * (h div 2)"
    using assms by (intro mod_less_divisor) simp
  then show ?thesis by simp
qed

text \<open>
  The six copies of lines 126-131, traced cell by cell: \<open>m1\<close> to \<open>m4\<close> are the contents
  of the shared buffer after each write.
\<close>

lemma swapQuadrants_nth:
  assumes m: "is_mat h w m" and r: "r < h" and c: "c < w"
  shows "swapQuadrants m ! r ! c =
         (if r < 2 * (h div 2) \<and> c < 2 * (w div 2)
          then m ! ((r + h div 2) mod (2 * (h div 2))) ! ((c + w div 2) mod (2 * (w div 2)))
          else m ! r ! c)"
proof -
  define cx where "cx = w div 2"
  define cy where "cy = h div 2"
  have cxw: "cx + cx \<le> w" and cyh: "cy + cy \<le> h"
    by (simp_all add: cx_def cy_def)
  have dims: "cols m div 2 = cx" "rows m div 2 = cy"
    using is_mat_cols[OF m] is_mat_rows[OF m] r by (simp_all add: cx_def cy_def)
  define m1 where "m1 = copyTo (roi m (Rect cx cy cx cy)) m (Rect 0 0 cx cy)"
  define m2 where "m2 = copyTo (roi m (Rect 0 0 cx cy)) m1 (Rect cx cy cx cy)"
  define m3 where "m3 = copyTo (roi m2 (Rect 0 cy cx cy)) m2 (Rect cx 0 cx cy)"
  define m4 where "m4 = copyTo (roi m2 (Rect cx 0 cx cy)) m3 (Rect 0 cy cx cy)"
  have sq: "swapQuadrants m = m4"
    by (simp add: swapQuadrants_def Let_def dims m1_def m2_def m3_def m4_def)
  have w1: "is_mat h w m1" unfolding m1_def by (rule is_mat_copyTo[OF m])
  have w2: "is_mat h w m2" unfolding m2_def by (rule is_mat_copyTo[OF w1])
  have w3: "is_mat h w m3" unfolding m3_def by (rule is_mat_copyTo[OF w2])
  have c1: "m1 ! i ! j = (if i < cy \<and> j < cx then m ! (cy + i) ! (cx + j) else m ! i ! j)"
    if "i < h" "j < w" for i j
    unfolding m1_def using cxw cyh that
    by (simp add: copyTo_nth[OF m] inside_def roi_nth[OF m])
  have r0: "\<And>i j. i < cy \<Longrightarrow> j < cx \<Longrightarrow> roi m (Rect 0 0 cx cy) ! i ! j = m ! i ! j"
    using roi_nth[OF m, of 0 cy 0 cx] cxw cyh by simp
  have c2: "m2 ! i ! j = (if cy \<le> i \<and> i < cy + cy \<and> cx \<le> j \<and> j < cx + cx
                          then m ! (i - cy) ! (j - cx) else m1 ! i ! j)"
    if "i < h" "j < w" for i j
    unfolding m2_def using cxw cyh that
    by (auto simp add: copyTo_nth[OF w1] inside_def r0)
  have r2: "\<And>i j. i < cy \<Longrightarrow> j < cx \<Longrightarrow> roi m2 (Rect 0 cy cx cy) ! i ! j = m2 ! (cy + i) ! j"
    using roi_nth[OF w2, of cy cy 0 cx] cxw cyh by simp
  have r1: "\<And>i j. i < cy \<Longrightarrow> j < cx \<Longrightarrow> roi m2 (Rect cx 0 cx cy) ! i ! j = m2 ! i ! (cx + j)"
    using roi_nth[OF w2, of 0 cy cx cx] cxw cyh by simp
  have c3: "m3 ! r ! c = (if r < cy \<and> cx \<le> c \<and> c < cx + cx
                          then m2 ! (cy + r) ! (c - cx) else m2 ! r ! c)"
    unfolding m3_def using cxw cyh
    by (auto simp add: copyTo_nth[OF w2 r c] inside_def r2)
  have c4: "m4 ! r ! c = (if cy \<le> r \<and> r < cy + cy \<and> c < cx
                          then m2 ! (r - cy) ! (cx + c) else m3 ! r ! c)"
    unfolding m4_def using cxw cyh
    by (auto simp add: copyTo_nth[OF w3 r c] inside_def r1)
  have "m4 ! r ! c =
         (if r < 2 * cy \<and> c < 2 * cx
          then m ! (if r < cy then r + cy else r - cy) ! (if c < cx then c + cx else c - cx)
          else m ! r ! c)"
    using r c cxw cyh by (auto simp add: c4 c3 c2 c1 add.commute)
  then show ?thesis
    unfolding sq by (simp add: half_shift_mod cx_def[symmetric] cy_def[symmetric])
qed

lemma is_mat_swapQuadrants: "is_mat h w m \<Longrightarrow> is_mat h w (swapQuadrants m)"
  by (simp add: swapQuadrants_def Let_def is_mat_copyTo)

lemma is_mat_centerQuadrants: "is_mat h w m \<Longrightarrow> is_mat h w (centerQuadrants m)"
  by (simp add: centerQuadrants_def Let_def is_mat_def list_all_length)

lemma centerQuadrants_nth:
  assumes m: "is_mat h w m" and r: "r < h" and c: "c < w"
  shows "centerQuadrants m ! r ! c =
         (if r < 2 * (h div 2) \<and> c < 2 * (w div 2)
          then m ! ((r + h div 2) mod (2 * (h div 2))) ! ((c + w div 2) mod (2 * (w div 2)))
          else m ! r ! c)"
proof -
  have "length m = h" "length (m ! r) = w"
    using m r by (simp_all add: is_mat_def list_all_length)
  moreover have "cols m = w" "rows m = h"
    using is_mat_cols[OF m] is_mat_rows[OF m] r by simp_all
  ultimately show ?thesis
    using r c by (simp add: centerQuadrants_def Let_def)
qed

lemma swapQuadrants_centerQuadrants:
  assumes "is_mat h w m"
  shows "swapQuadrants m = centerQuadrants m"
  using is_mat_swapQuadrants[OF assms] is_mat_centerQuadrants[OF assms]
  by (rule mat_eqI) (simp add: swapQuadrants_nth[OF assms] centerQuadrants_nth[OF assms])

text \<open>
  Claim C8. Applying the quadrant centering of \<open>getWienerFilter\<close> twice to a grid whose
  width and height are both even gives back the grid, cell for cell.
\<close>

theorem centering_involution:
  assumes "is_mat h w g" and "even h" and "even w"
  shows "swapQuadrants (swapQuadrants g) = g"
proof (rule mat_eqI)
  show "is_mat h w (swapQuadrants (swapQuadrants g))"
    using assms(1) by (intro is_mat_swapQuadrants)
  show "is_mat h w g" by fact
next
  fix r c assume rc: "r < h" "c < w"
  define cy where "cy = h div 2"
  define cx where "cx = w div 2"
  have hw: "h = 2 * cy" "w = 2 * cx"
    using assms(2,3) by (simp_all add: cy_def cx_def)
  define r' where "r' = (r + cy) mod (2 * cy)"
  define c' where "c' = (c + cx) mod (2 * cx)"
  have lt: "r' < 2 * cy" "c' < 2 * cx"
    using rc hw by (simp_all add: r'_def c'_def)
  have inv: "(r' + cy) mod (2 * cy) = r" "(c' + cx) mod (2 * cx) = c"
    using rc hw by (simp_all add: r'_def c'_def half_shift_twice)
  have "swapQuadrants (swapQuadrants g) ! r ! c = swapQuadrants g ! r' ! c'"
    using rc hw
    by (simp add: swapQuadrants_nth[OF is_mat_swapQuadrants[OF assms(1)]]
        cy_def[symmetric] cx_def[symmetric] r'_def c'_def)
  also have "\<dots> = g ! r ! c"
    using lt hw inv
    by (simp add: swapQuadrants_nth[OF assms(1)] cy_def[symmetric] cx_def[symmetric])
  finally show "swapQuadrants (swapQuadrants g) ! r ! c = g ! r ! c" .
qed

theorem centering_involution_witness:
  "is_mat 2 4 [[1, 2, 3, 4], [5, 6, 7, 8::nat]] \<and> even (2::nat) \<and> even (4::nat) \<and>
   swapQuadrants (swapQuadrants [[1, 2, 3, 4], [5, 6, 7, 8::nat]]) = [[1, 2, 3, 4], [5, 6, 7, 8]]"
  using centering_involution[of 2 4 "[[1, 2, 3, 4], [5, 6, 7, 8::nat]]"]
  by (simp add: is_mat_def)




section \<open>Finite cells\<close>

lemma is_fin_val: "is_fin x \<Longrightarrow> x = Fin (val x)"
  by (cases x) simp_all

lemma foldr_f_add_fin:
  "list_all is_fin xs \<Longrightarrow> foldr f_add xs (Fin 0) = Fin (sum_list (map val xs))"
proof (induction xs)
  case Nil
  then show ?case by simp
next
  case (Cons a xs)
  then obtain v where "a = Fin v" by (cases a) simp_all
  then show ?case using Cons by simp
qed

lemma sum_list_divide_const:
  fixes f :: "'a \<Rightarrow> real"
  shows "sum_list (map (\<lambda>x. f x / s) xs) = sum_list (map f xs) / s"
  by (induction xs) (simp_all add: add_divide_distrib)

lemma member_le_sum_list_real:
  fixes xs :: "real list"
  assumes "\<forall>x\<in>set xs. 0 \<le> x" and "a \<in> set xs"
  shows "a \<le> sum_list xs"
  using assms
proof (induction xs)
  case Nil
  then show ?case by simp
next
  case (Cons x xs)
  have "0 \<le> sum_list xs" using Cons.prems(1) by (simp add: sum_list_nonneg)
  then show ?case using Cons by auto
qed

section \<open>The point-spread function\<close>

lemma is_mat_circle: "is_mat h w img \<Longrightarrow> is_mat h w (circle img center radius color)"
  by (simp add: circle_def is_mat_def list_all_length)

lemma circle_nth:
  assumes "is_mat h w img" and "r < h" and "c < w"
  shows "circle img center radius color ! r ! c =
         (if in_disk center radius c r then color else img ! r ! c)"
proof -
  have "length img = h" "length (img ! r) = w"
    using assms by (simp_all add: is_mat_def list_all_length)
  then show ?thesis using assms by (simp add: circle_def)
qed

lemma Mat_fill_nth: "r < h \<Longrightarrow> c < w \<Longrightarrow> Mat_fill (w, h) v ! r ! c = v"
  by (simp add: Mat_fill_def)

lemma is_mat_map: "is_mat h w m \<Longrightarrow> is_mat h w (map (map f) m)"
  by (simp add: is_mat_def list_all_length)

lemma map_map_nth: "is_mat h w m \<Longrightarrow> r < h \<Longrightarrow> c < w \<Longrightarrow> map (map f) m ! r ! c = f (m ! r ! c)"
  by (simp add: is_mat_def list_all_length)

lemma concat_cells:
  assumes "is_mat h w m"
  shows "set (concat m) = {m ! r ! c | r c. r < h \<and> c < w}"
proof -
  have len: "length m = h" and row: "\<And>r. r < h \<Longrightarrow> length (m ! r) = w"
    using assms by (simp_all add: is_mat_def list_all_length)
  show ?thesis
  proof (intro set_eqI iffI)
    fix x assume "x \<in> set (concat m)"
    then obtain row' where "row' \<in> set m" "x \<in> set row'" by auto
    then obtain r c where "r < length m" "row' = m ! r" "c < length row'" "x = row' ! c"
      by (metis in_set_conv_nth)
    then show "x \<in> {m ! r ! c | r c. r < h \<and> c < w}"
      using len row by auto
  next
    fix x assume "x \<in> {m ! r ! c | r c. r < h \<and> c < w}"
    then obtain r c where "r < h" "c < w" "x = m ! r ! c" by auto
    then show "x \<in> set (concat m)"
      using len row by (auto intro!: bexI[of _ "m ! r"])
  qed
qed

lemma psf_unfold: "getWienerFilter_psf g bbox = mat_div_scalar (painted g bbox) (cv_sum (painted g bbox))"
  by (simp add: getWienerFilter_psf_def painted_def Let_def)

lemma is_mat_painted: "is_mat h w (painted g (w, h))"
  unfolding painted_def by (intro is_mat_circle is_mat_Mat_fill)

lemma painted_nth:
  assumes "r < h" and "c < w"
  shows "painted g (w, h) ! r ! c =
         (if in_disk (int (w div 2), int (h div 2)) (radius_slider g) c r then Fin 255 else Fin 0)"
  using assms by (simp add: painted_def circle_nth[OF is_mat_Mat_fill] Mat_fill_nth)

lemma painted_cells:
  "x \<in> set (concat (painted g (w, h))) \<Longrightarrow> x = Fin 255 \<or> x = Fin 0"
  unfolding concat_cells[OF is_mat_painted] by (auto simp: painted_nth split: if_splits)

lemma painted_sum: "cv_sum (painted g (w, h)) = Fin (sum_list (map val (concat (painted g (w, h)))))"
proof -
  have "list_all is_fin (concat (painted g (w, h)))"
    unfolding list_all_iff
  proof
    fix x assume "x \<in> set (concat (painted g (w, h)))"
    from painted_cells[OF this] show "is_fin x" by auto
  qed
  then show ?thesis
    unfolding cv_sum_def by (rule foldr_f_add_fin)
qed

lemma painted_sum_pos:
  assumes "0 \<le> radius_slider g" and "0 < w" and "0 < h"
  shows "0 < sum_list (map val (concat (painted g (w, h))))"
proof -
  have rc: "h div 2 < h" "w div 2 < w" using assms by simp_all
  have "in_disk (int (w div 2), int (h div 2)) (radius_slider g) (w div 2) (h div 2)"
    using assms(1) by (simp add: in_disk_def)
  then have "painted g (w, h) ! (h div 2) ! (w div 2) = Fin 255"
    using rc by (simp add: painted_nth)
  then have "Fin 255 \<in> set (concat (painted g (w, h)))"
    using rc unfolding concat_cells[OF is_mat_painted] by force
  then have "255 \<in> set (map val (concat (painted g (w, h))))"
    by force
  moreover have "\<forall>x\<in>set (map val (concat (painted g (w, h)))). 0 \<le> x"
  proof
    fix x assume "x \<in> set (map val (concat (painted g (w, h))))"
    then obtain y where "y \<in> set (concat (painted g (w, h)))" "x = val y"
      unfolding set_map by blast
    with painted_cells[OF this(1)] show "0 \<le> x" by auto
  qed
  ultimately have "255 \<le> sum_list (map val (concat (painted g (w, h))))"
    by (rule member_le_sum_list_real[rotated])
  then show ?thesis by simp
qed

lemma f_div_fin: "s \<noteq> 0 \<Longrightarrow> is_fin x \<Longrightarrow> f_div x (Fin s) = Fin (val x / s)"
  by (cases x) simp_all

lemma psf_nth:
  assumes "0 \<le> radius_slider g" and "r < h" and "c < w"
  shows "getWienerFilter_psf g (w, h) ! r ! c =
         Fin (val (painted g (w, h) ! r ! c) / sum_list (map val (concat (painted g (w, h)))))"
proof -
  have pos: "0 < sum_list (map val (concat (painted g (w, h))))"
    using assms by (intro painted_sum_pos) auto
  have "is_fin (painted g (w, h) ! r ! c)"
    using assms by (simp add: painted_nth)
  then show ?thesis
    using pos assms
    by (simp add: psf_unfold mat_div_scalar_def map_map_nth[OF is_mat_painted] painted_sum f_div_fin)
qed

lemma is_mat_psf: "is_mat h w (getWienerFilter_psf g (w, h))"
  by (simp add: psf_unfold mat_div_scalar_def is_mat_map[OF is_mat_painted])

lemma psf_sum:
  assumes "0 \<le> radius_slider g" and "0 < w" and "0 < h"
  shows "cv_sum (getWienerFilter_psf g (w, h)) = Fin 1"
proof -
  define S where "S = sum_list (map val (concat (painted g (w, h))))"
  have pos: "0 < S" unfolding S_def using assms by (rule painted_sum_pos)
  have fin: "is_fin x" if "x \<in> set (concat (painted g (w, h)))" for x
    using painted_cells[OF that] by auto
  have cells: "concat (getWienerFilter_psf g (w, h)) =
               map (\<lambda>v. Fin (val v / S)) (concat (painted g (w, h)))"
  proof -
    have "concat (getWienerFilter_psf g (w, h)) =
          map (\<lambda>v. f_div v (Fin S)) (concat (painted g (w, h)))"
      by (simp add: psf_unfold mat_div_scalar_def painted_sum S_def map_concat)
    also have "\<dots> = map (\<lambda>v. Fin (val v / S)) (concat (painted g (w, h)))"
      using pos by (intro map_cong refl f_div_fin fin) auto
    finally show ?thesis .
  qed
  have "cv_sum (getWienerFilter_psf g (w, h)) =
        Fin (sum_list (map val (map (\<lambda>v. Fin (val v / S)) (concat (painted g (w, h))))))"
    unfolding cv_sum_def cells by (rule foldr_f_add_fin) (simp add: list_all_iff)
  also have "\<dots> = Fin (S / S)"
    by (simp add: o_def sum_list_divide_const S_def)
  finally show ?thesis using pos by simp
qed

text \<open>
  Claim C4. For a radius of at least 0 (so for every radius of at least 1) and a
  non-empty target size (so for every size that contains the disk), the cells of the
  point-spread function add up to 1 after the division of line 113, and every cell
  outside the disk is exactly zero.
\<close>

theorem psf_normalized:
  assumes "0 \<le> radius_slider g" and "0 < w" and "0 < h"
  shows "cv_sum (getWienerFilter_psf g (w, h)) = Fin 1 \<and>
         (\<forall>r c. r < h \<and> c < w \<and> \<not> in_disk (int (w div 2), int (h div 2)) (radius_slider g) c r
                \<longrightarrow> getWienerFilter_psf g (w, h) ! r ! c = Fin 0)"
  using assms by (simp add: psf_sum psf_nth painted_nth)

theorem psf_normalized_witness:
  "(0::int) \<le> 1 \<and> (0::nat) < 3 \<and>
   cv_sum (getWienerFilter_psf \<lparr>radius_slider = 1, snr_slider = 1200\<rparr> (3, 3)) = Fin 1 \<and>
   getWienerFilter_psf \<lparr>radius_slider = 1, snr_slider = 1200\<rparr> (3, 3) ! 0 ! 0 = Fin 0"
  using psf_normalized[of "\<lparr>radius_slider = 1, snr_slider = 1200\<rparr>" 3 3]
  by (simp add: in_disk_def)

section \<open>The transform on finite cells\<close>

lemma c_add_of_c: "c_add (of_c a) (of_c b) = of_c (a + b)"
  by (simp add: c_add_def of_c_def)

lemma c_mul_of_c: "c_mul (of_c a) (of_c b) = of_c (a * b)"
  by (simp add: c_mul_def of_c_def f_sub_def)

lemma c_sum_of_c: "c_sum (map of_c zs) = of_c (sum_list zs)"
proof (induction zs)
  case Nil
  show ?case by (simp add: c_sum_def of_c_def)
next
  case (Cons z zs)
  then have "c_sum (map of_c (z # zs)) = c_add (of_c z) (of_c (sum_list zs))"
    by (simp add: c_sum_def)
  then show ?case by (simp add: c_add_of_c)
qed

lemma twiddle_of_c: "twiddle bwd n k = of_c (omega bwd n k)"
  by (simp add: twiddle_def omega_def of_c_def Let_def)

lemma sum_list_rows:
  fixes xss :: "complex list list"
  shows "sum_list (concat xss) = sum_list (map sum_list xss)"
  by (induction xss) simp_all

lemma sum_list_grid:
  fixes F :: "nat \<Rightarrow> nat \<Rightarrow> complex"
  shows "sum_list (concat (map (\<lambda>r. map (F r) [0..<w]) [0..<h])) = (\<Sum>r<h. \<Sum>c<w. F r c)"
  by (simp add: sum_list_rows o_def interv_sum_list_conv_sum_set_nat atLeast0LessThan)

lemma dft2_of_c:
  assumes "is_mat h w M"
  shows "dft2 bwd (map (map of_c) M) =
         map (\<lambda>u. map (\<lambda>v. of_c (cdft bwd h w (\<lambda>r c. M ! r ! c) u v)) [0..<w]) [0..<h]"
proof (cases "h = 0")
  case True
  then show ?thesis using assms by (simp add: dft2_def is_mat_def rows_def)
next
  case False
  have len: "length M = h" and row: "\<And>r. r < h \<Longrightarrow> length (M ! r) = w"
    using assms by (simp_all add: is_mat_def list_all_length)
  have m: "is_mat h w (map (map of_c) M)"
    using assms by (simp add: is_mat_def list_all_length)
  have dims: "rows (map (map of_c) M) = h" "cols (map (map of_c) M) = w"
    using is_mat_rows[OF m] is_mat_cols[OF m] False by simp_all
  have cell: "concat (map (\<lambda>r. map (\<lambda>c.
                 c_mul (map (map of_c) M ! r ! c)
                   (c_mul (twiddle bwd h (u * r)) (twiddle bwd w (v * c)))) [0..<w]) [0..<h])
            = map of_c (concat (map (\<lambda>r. map (\<lambda>c.
                 M ! r ! c * (omega bwd h (u * r) * omega bwd w (v * c))) [0..<w]) [0..<h]))"
    for u v
    unfolding map_concat
    by (rule arg_cong[where f = concat])
       (simp add: len row twiddle_of_c c_mul_of_c)
  show ?thesis
    unfolding dft2_def Let_def dims cell c_sum_of_c sum_list_grid cdft_def ..
qed


lemma omega_product:
  assumes "0 < n"
  shows "omega False n (k * a) * omega True n (b * k) =
         cis (2 * pi * (real b - real a) / real n) ^ k"
proof -
  have "omega False n (k * a) * omega True n (b * k) =
        cis (- (2 * pi * real (k * a) / real n) + 2 * pi * real (b * k) / real n)"
    by (simp add: omega_def cis_mult)
  also have "- (2 * pi * real (k * a) / real n) + 2 * pi * real (b * k) / real n =
             real k * (2 * pi * (real b - real a) / real n)"
    using assms by (simp add: field_simps)
  finally show ?thesis by (simp add: DeMoivre)
qed

lemma unit_root_neq_1:
  assumes "a < n" and "b < n" and "a \<noteq> b"
  shows "cis (2 * pi * (real b - real a) / real n) \<noteq> 1"
proof
  assume "cis (2 * pi * (real b - real a) / real n) = 1"
  then have "cos (2 * pi * (real b - real a) / real n) = 1"
    by (simp add: complex_eq_iff)
  then obtain k :: int where k: "2 * pi * (real b - real a) / real n = real_of_int k * 2 * pi"
    unfolding cos_one_2pi_int by blast
  have n: "0 < real n" using assms(1) by simp
  have "2 * pi * ((real b - real a) / real n) = 2 * pi * real_of_int k"
    using k by (simp add: mult.commute mult.left_commute)
  then have "(real b - real a) / real n = real_of_int k"
    by (simp only: mult_cancel_left) (use pi_gt_zero in simp)
  then have "real b - real a = real_of_int k * real n"
    using n by (simp add: field_simps)
  then have "real_of_int (int b - int a) = real_of_int (k * int n)"
    by simp
  then have eq: "int b - int a = k * int n"
    by (simp only: of_int_eq_iff)
  have "\<bar>int b - int a\<bar> < int n" using assms by linarith
  then have "\<bar>k\<bar> * int n < 1 * int n" using eq by (simp add: abs_mult)
  then have "\<bar>k\<bar> < 1" by (rule mult_right_less_imp_less) simp
  then have "k = 0" by simp
  then show False using eq assms(3) by simp
qed

lemma omega_orthogonal:
  assumes "a < n" and "b < n"
  shows "(\<Sum>k<n. omega False n (k * a) * omega True n (b * k)) =
         (if a = b then of_nat n else 0)"
proof -
  have n: "0 < n" using assms by simp
  define z where "z = cis (2 * pi * (real b - real a) / real n)"
  have sum: "(\<Sum>k<n. omega False n (k * a) * omega True n (b * k)) = (\<Sum>k<n. z ^ k)"
    by (simp add: omega_product[OF n] z_def)
  show ?thesis
  proof (cases "a = b")
    case True
    then have "z = 1" by (simp add: z_def)
    then show ?thesis using True sum by simp
  next
    case False
    have z1: "z \<noteq> 1" unfolding z_def by (rule unit_root_neq_1[OF assms False])
    have "z ^ n = cis (2 * pi * (real b - real a))"
      using n by (simp add: z_def DeMoivre)
    also have "\<dots> = cis (2 * pi * real_of_int (int b - int a))" by simp
    also have "\<dots> = 1" by (rule cis_multiple_2pi) simp
    finally have "z ^ n = 1" .
    then have "(\<Sum>k<n. z ^ k) = 0"
      using z1 by (simp add: geometric_sum)
    then show ?thesis using False sum by simp
  qed
qed

lemma dft1_inversion:
  fixes x :: "nat \<Rightarrow> complex"
  assumes "b < n"
  shows "(\<Sum>k<n. (\<Sum>a<n. x a * omega False n (k * a)) * omega True n (b * k)) = of_nat n * x b"
proof -
  have "(\<Sum>k<n. (\<Sum>a<n. x a * omega False n (k * a)) * omega True n (b * k)) =
        (\<Sum>k<n. \<Sum>a<n. x a * (omega False n (k * a) * omega True n (b * k)))"
    by (simp add: sum_distrib_right mult.assoc)
  also have "\<dots> = (\<Sum>a<n. \<Sum>k<n. x a * (omega False n (k * a) * omega True n (b * k)))"
    by (rule sum.swap)
  also have "\<dots> = (\<Sum>a<n. x a * (\<Sum>k<n. omega False n (k * a) * omega True n (b * k)))"
    by (simp add: sum_distrib_left)
  also have "\<dots> = (\<Sum>a<n. x a * (if a = b then of_nat n else 0))"
    by (rule sum.cong) (simp_all add: omega_orthogonal assms)
  also have "\<dots> = of_nat n * x b"
    using assms by (simp add: sum.delta' if_distrib[of "\<lambda>y. _ * y"] cong: if_cong)
  finally show ?thesis .
qed


lemmas cmult_ac = mult.assoc[where 'a = complex] mult.commute[where 'a = complex]
  mult.left_commute[where 'a = complex]

lemma cdft_rows_then_columns:
  "cdft bwd h w f u v = (\<Sum>r<h. (\<Sum>c<w. f r c * omega bwd w (v * c)) * omega bwd h (u * r))"
  unfolding cdft_def
  by (intro sum.cong refl) (simp add: sum_distrib_left sum_distrib_right cmult_ac)

lemma cdft_inversion:
  assumes "r' < h" and "c' < w"
  shows "cdft True h w (\<lambda>u v. K * cdft False h w f u v) r' c' =
         K * (of_nat h * of_nat w * f r' c')"
proof -
  define g where "g r v = (\<Sum>c<w. f r c * omega False w (v * c))" for r v
  have fwd: "cdft False h w f u v = (\<Sum>r<h. g r v * omega False h (u * r))" for u v
    by (simp add: cdft_rows_then_columns g_def)
  have "cdft True h w (\<lambda>u v. K * cdft False h w f u v) r' c' =
        (\<Sum>u<h. \<Sum>v<w. K * ((\<Sum>r<h. g r v * omega False h (u * r)) * omega True h (r' * u))
                          * omega True w (c' * v))"
    unfolding cdft_def[of True] fwd by (simp add: cmult_ac)
  also have "\<dots> = (\<Sum>v<w. \<Sum>u<h. K * ((\<Sum>r<h. g r v * omega False h (u * r)) * omega True h (r' * u))
                          * omega True w (c' * v))"
    by (rule sum.swap)
  also have "\<dots> = (\<Sum>v<w. K * (\<Sum>u<h. (\<Sum>r<h. g r v * omega False h (u * r)) * omega True h (r' * u))
                          * omega True w (c' * v))"
    by (simp add: sum_distrib_left sum_distrib_right)
  also have "\<dots> = (\<Sum>v<w. K * (of_nat h * g r' v) * omega True w (c' * v))"
    by (simp add: dft1_inversion[OF assms(1)])
  also have "\<dots> = K * of_nat h * (\<Sum>v<w. g r' v * omega True w (c' * v))"
    by (simp add: sum_distrib_left cmult_ac)
  also have "(\<Sum>v<w. g r' v * omega True w (c' * v)) = of_nat w * f r' c'"
    unfolding g_def by (rule dft1_inversion[OF assms(2)])
  finally show ?thesis by (simp add: cmult_ac)
qed


lemma fin_mat_nth: "is_mat h w m \<Longrightarrow> fin_mat m \<Longrightarrow> r < h \<Longrightarrow> c < w \<Longrightarrow> is_fin (m ! r ! c)"
  by (simp add: fin_mat_def is_mat_def list_all_length)

lemma fin_matI:
  "is_mat h w m \<Longrightarrow> (\<And>r c. r < h \<Longrightarrow> c < w \<Longrightarrow> is_fin (m ! r ! c)) \<Longrightarrow> fin_mat m"
  by (simp add: fin_mat_def is_mat_def list_all_length)

lemma is_mat_grid: "is_mat h w (map (\<lambda>r. map (F r) [0..<w]) [0..<h])"
  by (simp add: is_mat_def list_all_length)

lemma is_mat_empty: "is_mat 0 w m \<Longrightarrow> m = []"
  by (simp add: is_mat_def)

lemma size_of_is_mat: "is_mat h w m \<Longrightarrow> 0 < h \<Longrightarrow> size_of m = (w, h)"
  by (simp add: size_of_def is_mat_rows is_mat_cols)

lemma is_mat_merge:
  assumes "is_mat h w a" and "is_mat h w b"
  shows "is_mat h w (cv_merge (a, b))"
  using assms by (simp add: cv_merge_def is_mat_def list_all_length)

lemma merge_nth:
  assumes "is_mat h w a" and "is_mat h w b" and "r < h" and "c < w"
  shows "cv_merge (a, b) ! r ! c = (a ! r ! c, b ! r ! c)"
  using assms by (simp add: cv_merge_def is_mat_def list_all_length)

lemma map2_map2_nth:
  assumes "is_mat h w a" and "is_mat h w b" and "r < h" and "c < w"
  shows "map2 (map2 f) a b ! r ! c = f (a ! r ! c) (b ! r ! c)"
  using assms by (simp add: is_mat_def list_all_length)

lemma is_mat_map2_map2:
  assumes "is_mat h w a" and "is_mat h w b"
  shows "is_mat h w (map2 (map2 f) a b)"
  using assms by (simp add: is_mat_def list_all_length)

lemma merge_zeros_fin:
  assumes m: "is_mat h w F" and fin: "fin_mat F"
  shows "cv_merge (F, Mat_fill (size_of F) (Fin 0)) =
         map (map of_c) (map (map (\<lambda>x. complex_of_real (val x))) F)"
proof (cases "h = 0")
  case True
  then have "F = []" using m by (simp add: is_mat_def)
  then show ?thesis by (simp add: cv_merge_def)
next
  case False
  then have sz: "size_of F = (w, h)" using m by (simp add: size_of_is_mat)
  have z: "is_mat h w (Mat_fill (w, h) (Fin 0))" by (rule is_mat_Mat_fill)
  show ?thesis
    unfolding sz
  proof (rule mat_eqI)
    show "is_mat h w (cv_merge (F, Mat_fill (w, h) (Fin 0)))"
      by (rule is_mat_merge[OF m z])
    show "is_mat h w (map (map of_c) (map (map (\<lambda>x. complex_of_real (val x))) F))"
      by (intro is_mat_map m)
  next
    fix r c assume rc: "r < h" "c < w"
    have "F ! r ! c = Fin (val (F ! r ! c))"
      using fin_mat_nth[OF m fin rc] by (rule is_fin_val)
    then show "cv_merge (F, Mat_fill (w, h) (Fin 0)) ! r ! c =
          map (map of_c) (map (map (\<lambda>x. complex_of_real (val x))) F) ! r ! c"
      using rc
      by (simp add: merge_nth[OF m z] Mat_fill_nth map_map_nth[OF is_mat_map[OF m]]
          map_map_nth[OF m] of_c_def)
  qed
qed

lemma cdft_cong:
  assumes "\<And>r c. r < h \<Longrightarrow> c < w \<Longrightarrow> f r c = f' r c"
  shows "cdft bwd h w f u v = cdft bwd h w f' u v"
  unfolding cdft_def by (intro sum.cong refl) (simp add: assms)

text \<open>The transform of a finite matrix, with and without the scale.\<close>

lemma cv_dft_fin:
  assumes m: "is_mat h w F" and fin: "fin_mat F"
  shows "cv_dft (cv_merge (F, Mat_fill (size_of F) (Fin 0))) flags =
         map (\<lambda>u. map (\<lambda>v. of_c
              ((if DFT_SCALE \<in> set flags then complex_of_real (1 / real (h * w)) else 1) *
               cdft (DFT_INVERSE \<in> set flags) h w (\<lambda>r c. complex_of_real (val (F ! r ! c))) u v))
            [0..<w]) [0..<h]"
proof (cases "h = 0")
  case True
  then have "F = []" using is_mat_empty m by auto
  then show ?thesis using True
    by (simp add: cv_dft_def cv_merge_def dft2_def rows_def Let_def)
next
  case False
  define M where "M = map (map (\<lambda>x. complex_of_real (val x))) F"
  have mM: "is_mat h w M" unfolding M_def by (intro is_mat_map m)
  have merged: "cv_merge (F, Mat_fill (size_of F) (Fin 0)) = map (map of_c) M"
    unfolding M_def by (rule merge_zeros_fin[OF m fin])
  have mm: "is_mat h w (map (map of_c) M)" by (intro is_mat_map mM)
  have dims: "rows (map (map of_c) M) = h" "cols (map (map of_c) M) = w"
    using is_mat_rows[OF mm] is_mat_cols[OF mm] False by simp_all
  have cell: "cdft b h w (\<lambda>r c. M ! r ! c) u v =
              cdft b h w (\<lambda>r c. complex_of_real (val (F ! r ! c))) u v" for b u v
    by (rule cdft_cong) (simp add: M_def map_map_nth[OF m])
  have scale: "c_scale (Fin (1 / real (h * w))) (of_c z) =
               of_c (complex_of_real (1 / real (h * w)) * z)" for z
    by (simp add: c_scale_def of_c_def)
  show ?thesis
  proof (cases "DFT_SCALE \<in> set flags")
    case True
    then show ?thesis
      unfolding merged cv_dft_def Let_def dims dft2_of_c[OF mM] cell
      by (simp only: if_True map_map o_def scale)
  next
    case False
    then show ?thesis
      unfolding merged cv_dft_def Let_def dims dft2_of_c[OF mM] cell
      by (simp only: if_False mult_1)
  qed
qed


lemma filter_complexI_fin:
  assumes "is_mat h w G" and "fin_mat G"
  shows "filter_complexI G =
         map (map of_c) (map (\<lambda>u. map (\<lambda>v. complex_of_real (1 / real (h * w)) *
               cdft False h w (\<lambda>r c. complex_of_real (val (G ! r ! c))) u v) [0..<w]) [0..<h])"
  by (simp add: filter_complexI_def Let_def cv_dft_fin[OF assms] o_def)

lemma roundtrip_real_plane:
  assumes m: "is_mat h w G" and fin: "fin_mat G"
  shows "fst (cv_split (cv_idft (filter_complexI G) [])) = G"
proof (cases "h = 0")
  case True
  then have "G = []" using m by (simp add: is_mat_def)
  then show ?thesis
    by (simp add: filter_complexI_def cv_idft_def cv_dft_def cv_merge_def dft2_def
        cv_split_def rows_def Let_def)
next
  case False
  define K where "K = complex_of_real (1 / real (h * w))"
  define f where "f r c = complex_of_real (val (G ! r ! c))" for r c
  define M where "M = map (\<lambda>u. map (\<lambda>v. K * cdft False h w f u v) [0..<w]) [0..<h]"
  have mM: "is_mat h w M" unfolding M_def by (rule is_mat_grid)
  have mm: "is_mat h w (map (map of_c) M)" by (intro is_mat_map mM)
  have dims: "rows (map (map of_c) M) = h" "cols (map (map of_c) M) = w"
    using is_mat_rows[OF mm] is_mat_cols[OF mm] False by simp_all
  have fwd: "filter_complexI G = map (map of_c) M"
    unfolding M_def K_def f_def by (rule filter_complexI_fin[OF m fin])
  have bwd: "cv_idft (map (map of_c) M) [] =
              map (\<lambda>r. map (\<lambda>c. of_c (cdft True h w (\<lambda>u v. M ! u ! v) r c)) [0..<w]) [0..<h]"
    by (simp add: cv_idft_def cv_dft_def Let_def dft2_of_c[OF mM])
  show ?thesis
  proof (rule mat_eqI[OF _ m])
    show "is_mat h w (fst (cv_split (cv_idft (filter_complexI G) [])))"
      unfolding fwd bwd cv_split_def fst_conv by (intro is_mat_map is_mat_grid)
  next
    fix r c assume rc: "r < h" "c < w"
    have hw: "0 < h" "0 < w" using rc by simp_all
    have "cdft True h w (\<lambda>u v. M ! u ! v) r c = cdft True h w (\<lambda>u v. K * cdft False h w f u v) r c"
      by (rule cdft_cong) (simp add: M_def)
    also have "\<dots> = K * (of_nat h * of_nat w * f r c)"
      by (rule cdft_inversion[OF rc])
    also have "\<dots> = f r c"
      using hw by (simp add: K_def)
    finally have cell: "cdft True h w (\<lambda>u v. M ! u ! v) r c = f r c" .
    have "G ! r ! c = Fin (val (G ! r ! c))"
      using fin_mat_nth[OF m fin rc] by (rule is_fin_val)
    then show "fst (cv_split (cv_idft (filter_complexI G) [])) ! r ! c = G ! r ! c"
      unfolding fwd bwd cv_split_def fst_conv
      using rc by (simp add: cell of_c_def f_def)
  qed
qed


lemma filter_img_ones:
  assumes m: "is_mat h w G" and fin: "fin_mat G"
  shows "filter_img G (Mat_fill (w, h) (Fin 1)) = Inr G"
proof (cases "h = 0")
  case True
  then have "G = []" using m by (simp add: is_mat_def)
  then show ?thesis using True
    by (simp add: filter_img_blocks filter_complexI_def mulSpectrums_def cv_idft_def cv_dft_def
        cv_merge_def dft2_def cv_split_def rows_def cols_def size_of_def Mat_fill_def Let_def)
next
  case False
  define M where "M = map (\<lambda>u. map (\<lambda>v. complex_of_real (1 / real (h * w)) *
               cdft False h w (\<lambda>r c. complex_of_real (val (G ! r ! c))) u v) [0..<w]) [0..<h]"
  define X where "X = map (map of_c) M"
  define ones :: "f32 mat" where "ones = Mat_fill (w, h) (Fin 1)"
  have mM: "is_mat h w M" unfolding M_def by (rule is_mat_grid)
  have mX: "is_mat h w X" unfolding X_def by (intro is_mat_map mM)
  have fwd: "filter_complexI G = X"
    unfolding X_def M_def by (rule filter_complexI_fin[OF m fin])
  have mo: "is_mat h w ones" unfolding ones_def by (rule is_mat_Mat_fill)
  have fo: "fin_mat ones"
    by (rule fin_matI[OF mo]) (simp add: ones_def Mat_fill_nth)
  define Hc where "Hc = cv_merge (ones, Mat_fill (size_of ones) (Fin 0))"
  have Hc: "Hc = map (map of_c) (map (map (\<lambda>x. complex_of_real (val x))) ones)"
    unfolding Hc_def by (rule merge_zeros_fin[OF mo fo])
  have mH: "is_mat h w Hc" unfolding Hc by (intro is_mat_map mo)
  have sz: "size_of X = size_of Hc"
    using False by (simp add: size_of_is_mat[OF mX] size_of_is_mat[OF mH])
  have prod: "map2 (map2 c_mul) X Hc = X"
  proof (rule mat_eqI[OF is_mat_map2_map2[OF mX mH] mX])
    fix r c assume rc: "r < h" "c < w"
    have "ones ! r ! c = Fin 1"
      using rc by (simp add: ones_def Mat_fill_nth)
    then have "Hc ! r ! c = of_c 1"
      unfolding Hc
      by (simp only: map_map_nth[OF is_mat_map[OF mo] rc] map_map_nth[OF mo rc] val.simps of_real_1)
    moreover have "X ! r ! c = of_c (M ! r ! c)"
      using rc unfolding X_def by (simp add: map_map_nth[OF mM])
    ultimately show "map2 (map2 c_mul) X Hc ! r ! c = X ! r ! c"
      using rc by (simp add: map2_map2_nth[OF mX mH] c_mul_of_c)
  qed
  have "mulSpectrums X Hc = Inr X"
    by (simp add: mulSpectrums_def sz prod)
  then have "filter_img G ones = Inr (fst (cv_split (cv_idft X [])))"
    by (simp add: filter_img_blocks fwd Hc_def)
  also have "fst (cv_split (cv_idft X [])) = G"
    unfolding fwd[symmetric] by (rule roundtrip_real_plane[OF m fin])
  finally show ?thesis unfolding ones_def .
qed

text \<open>
  Claim C3. For every real grid \<open>G\<close> of finite cells, the real plane of the inverse
  transform (line 95, \<open>idft\<close> without flags) of the forward transform (lines 84-87,
  \<open>dft\<close> with \<open>DFT_SCALE\<close>) is \<open>G\<close> again; so \<open>filter\<close> with the transfer function that
  is 1 in every cell returns its input. The arithmetic is exact in this model, where the
  claim allows a floating-point tolerance.
\<close>

theorem transform_roundtrip:
  assumes "is_mat h w G" and "fin_mat G"
  shows "fst (cv_split (cv_idft (filter_complexI G) [])) = G \<and>
         filter_img G (Mat_fill (w, h) (Fin 1)) = Inr G"
  using assms by (simp add: roundtrip_real_plane filter_img_ones)

theorem transform_roundtrip_witness:
  "is_mat 1 2 [[Fin 3, Fin 5]] \<and> fin_mat [[Fin 3, Fin 5]] \<and>
   fst (cv_split (cv_idft (filter_complexI [[Fin 3, Fin 5]]) [])) = [[Fin 3, Fin 5]] \<and>
   filter_img [[Fin 3, Fin 5]] [[Fin 1, Fin 1]] = Inr [[Fin 3, Fin 5]]"
  using transform_roundtrip[of 1 2 "[[Fin 3, Fin 5]]"]
  by (simp add: is_mat_def fin_mat_def Mat_fill_def eval_nat_numeral)

section \<open>The transfer function\<close>

lemma is_mat_dft2: "0 < rows m \<Longrightarrow> is_mat (rows m) (cols m) (dft2 bwd m)"
  by (simp add: dft2_def Let_def is_mat_def list_all_length)

lemma is_mat_cI: "is_mat h w (getWienerFilter_cI g (w, h))"
proof (cases "h = 0")
  case True
  then show ?thesis
    by (simp add: getWienerFilter_cI_def getWienerFilter_psf_def Let_def Mat_fill_def circle_def
        mat_div_scalar_def swapQuadrants_def copyTo_def cv_merge_def cv_dft_def dft2_def rows_def
        is_mat_def)
next
  case False
  define F where "F = swapQuadrants (getWienerFilter_psf g (w, h))"
  have mF: "is_mat h w F" unfolding F_def by (intro is_mat_swapQuadrants is_mat_psf)
  have sz: "size_of F = (w, h)" using mF False by (simp add: size_of_is_mat)
  have mm: "is_mat h w (cv_merge (F, Mat_fill (w, h) (Fin 0)))"
    by (intro is_mat_merge mF is_mat_Mat_fill)
  have dims: "rows (cv_merge (F, Mat_fill (w, h) (Fin 0))) = h"
             "cols (cv_merge (F, Mat_fill (w, h) (Fin 0))) = w"
    using is_mat_rows[OF mm] is_mat_cols[OF mm] False by simp_all
  have "is_mat h w (dft2 False (cv_merge (F, Mat_fill (w, h) (Fin 0))))"
    using is_mat_dft2[of "cv_merge (F, Mat_fill (w, h) (Fin 0))" False] False
    by (simp add: dims)
  then show ?thesis
    by (simp add: getWienerFilter_cI_def Let_def F_def[symmetric] sz cv_dft_def)
qed

lemma getWienerFilter_unfold:
  "getWienerFilter g bbox =
     map2 (map2 f_div) (map (map fst) (getWienerFilter_cI g bbox))
       (map (map (\<lambda>v. f_add (f_mul (f_abs v) (f_abs v))
                            (f_div (Fin 1) (Fin (real_of_int (snr_slider g))))))
            (map (map fst) (getWienerFilter_cI g bbox)))"
  by (simp only: getWienerFilter_blocks Let_def cv_split_def cv_divide_def cv_pow2_def cv_abs_def
      mat_add_scalar_def fst_conv map_map o_def)

lemma is_mat_getWienerFilter: "is_mat h w (getWienerFilter g (w, h))"
  unfolding getWienerFilter_unfold
  by (intro is_mat_map2_map2 is_mat_map is_mat_cI)

lemma getWienerFilter_nth:
  assumes "r < h" and "c < w"
  shows "getWienerFilter g (w, h) ! r ! c =
         f_div (fst (getWienerFilter_cI g (w, h) ! r ! c))
           (f_add (f_mul (f_abs (fst (getWienerFilter_cI g (w, h) ! r ! c)))
                         (f_abs (fst (getWienerFilter_cI g (w, h) ! r ! c))))
                  (f_div (Fin 1) (Fin (real_of_int (snr_slider g)))))"
proof -
  note m = is_mat_cI[of h w g]
  have mH: "is_mat h w (map (map fst) (getWienerFilter_cI g (w, h)))"
    by (intro is_mat_map m)
  show ?thesis
    unfolding getWienerFilter_unfold
    by (simp only: map2_map2_nth[OF mH is_mat_map[OF mH] assms] map_map_nth[OF mH assms]
        map_map_nth[OF m assms])
qed

lemma fin_mat_psf:
  assumes "0 \<le> radius_slider g"
  shows "fin_mat (getWienerFilter_psf g (w, h))"
  by (rule fin_matI[OF is_mat_psf]) (simp add: psf_nth[OF assms])

lemma fin_mat_swapQuadrants:
  assumes "is_mat h w m" and "fin_mat m"
  shows "fin_mat (swapQuadrants m)"
proof (rule fin_matI[OF is_mat_swapQuadrants[OF assms(1)]])
  fix r c assume rc: "r < h" "c < w"
  then show "is_fin (swapQuadrants m ! r ! c)"
    using half_shift_less[of r h] half_shift_less[of c w]
    by (simp add: swapQuadrants_nth[OF assms(1)] fin_mat_nth[OF assms])
qed

lemma cI_fin:
  assumes "0 \<le> radius_slider g" and "r < h" and "c < w"
  shows "\<exists>x. fst (getWienerFilter_cI g (w, h) ! r ! c) = Fin x"
proof -
  define F where "F = swapQuadrants (getWienerFilter_psf g (w, h))"
  have mF: "is_mat h w F" unfolding F_def by (intro is_mat_swapQuadrants is_mat_psf)
  have fF: "fin_mat F"
    unfolding F_def by (intro fin_mat_swapQuadrants[OF is_mat_psf] fin_mat_psf assms)
  show ?thesis
    using assms(2,3)
    by (simp add: getWienerFilter_cI_def Let_def F_def[symmetric] cv_dft_fin[OF mF fF] of_c_def)
qed


lemma wiener_gain_bound:
  fixes x s :: real
  assumes "0 < s"
  shows "0 < x\<^sup>2 + 1 / s" and "\<bar>x / (x\<^sup>2 + 1 / s)\<bar> \<le> sqrt s / 2"
proof -
  define q where "q = sqrt s"
  have q: "0 < q" and s: "s = q\<^sup>2" using assms by (simp_all add: q_def)
  show pos: "0 < x\<^sup>2 + 1 / s"
    using assms by (simp add: add_nonneg_pos)
  have "0 \<le> (q * \<bar>x\<bar> - 1)\<^sup>2" by simp
  then have "2 * (q * \<bar>x\<bar>) \<le> q\<^sup>2 * x\<^sup>2 + 1"
    by (simp add: power2_diff power_mult_distrib)
  then have "2 * (q * \<bar>x\<bar>) / q\<^sup>2 \<le> (q\<^sup>2 * x\<^sup>2 + 1) / q\<^sup>2"
    using q by (simp add: divide_right_mono)
  then have "2 * \<bar>x\<bar> / q \<le> x\<^sup>2 + 1 / q\<^sup>2"
    using q by (simp add: power2_eq_square add_divide_distrib)
  then have "\<bar>x\<bar> \<le> (x\<^sup>2 + 1 / s) * (q / 2)"
    using q by (simp add: s field_simps)
  then have "\<bar>x\<bar> / (x\<^sup>2 + 1 / s) \<le> q / 2"
    using pos by (simp add: pos_divide_le_eq mult.commute)
  then show "\<bar>x / (x\<^sup>2 + 1 / s)\<bar> \<le> sqrt s / 2"
    using pos by (simp add: q_def abs_divide)
    
qed

text \<open>
  Claim C9. For every ratio \<open>snr > 0\<close> (and a radius of at least 0, the domain of the
  radius), every cell of the transfer function is finite: with \<open>x\<close> the cell of the real
  plane \<open>H\<close>, the denominator \<open>x^2 + 1/snr\<close> is strictly positive, the cell is
  \<open>x / (x^2 + 1/snr)\<close>, and its magnitude is at most \<open>sqrt snr / 2\<close>, hence at most
  \<open>sqrt snr\<close>.
\<close>

theorem wiener_bounded:
  assumes "0 < snr_slider g" and "0 \<le> radius_slider g" and "r < h" and "c < w"
  shows "\<exists>x. fst (getWienerFilter_cI g (w, h) ! r ! c) = Fin x \<and>
             0 < x\<^sup>2 + 1 / real_of_int (snr_slider g) \<and>
             getWienerFilter g (w, h) ! r ! c = Fin (x / (x\<^sup>2 + 1 / real_of_int (snr_slider g))) \<and>
             \<bar>x / (x\<^sup>2 + 1 / real_of_int (snr_slider g))\<bar> \<le> sqrt (real_of_int (snr_slider g)) / 2 \<and>
             \<bar>x / (x\<^sup>2 + 1 / real_of_int (snr_slider g))\<bar> \<le> sqrt (real_of_int (snr_slider g))"
proof -
  define s where "s = real_of_int (snr_slider g)"
  have s: "0 < s" using assms(1) by (simp add: s_def)
  obtain x where x: "fst (getWienerFilter_cI g (w, h) ! r ! c) = Fin x"
    using cI_fin[OF assms(2-4)] by blast
  have pos: "0 < x\<^sup>2 + 1 / s" and bound: "\<bar>x / (x\<^sup>2 + 1 / s)\<bar> \<le> sqrt s / 2"
    using wiener_gain_bound[OF s] by simp_all
  have "sqrt s / 2 \<le> sqrt s" using s by simp
  then have bound2: "\<bar>x / (x\<^sup>2 + 1 / s)\<bar> \<le> sqrt s" using bound by linarith
  have "getWienerFilter g (w, h) ! r ! c = Fin (x / (x\<^sup>2 + 1 / s))"
    using s pos
    by (simp add: getWienerFilter_nth[OF assms(3,4)] x s_def[symmetric] power2_eq_square)
  then show ?thesis
    using x pos bound bound2 unfolding s_def by blast
qed

theorem wiener_bounded_witness:
  "(0::int) < 1200 \<and> (0::nat) < 2 \<and>
   (\<exists>x. getWienerFilter \<lparr>radius_slider = 64, snr_slider = 1200\<rparr> (2, 2) ! 0 ! 0 = Fin x \<and>
        \<bar>x\<bar> \<le> sqrt 1200 / 2)"
  using wiener_bounded[of "\<lparr>radius_slider = 64, snr_slider = 1200\<rparr>" 0 2 0 2]
  by auto

text \<open>
  Claim C6, as the code has it. \<open>getWienerFilter\<close> has no check of the ratio. With
  \<open>snr_slider = 0\<close> the reciprocal of line 141 is taken and is plus infinity, every cell
  of \<open>degrad\<close> is plus infinity, and (for a radius of at least 0) the function returns
  the transfer function that is zero in every cell.
\<close>

theorem wiener_snr_zero:
  assumes "snr_slider g = 0" and "0 \<le> radius_slider g"
  shows "f_div (Fin 1) (Fin (real_of_int (snr_slider g))) = PInf \<and>
         getWienerFilter g (w, h) = Mat_fill (w, h) (Fin 0)"
proof
  show "f_div (Fin 1) (Fin (real_of_int (snr_slider g))) = PInf"
    using assms(1) by (simp add: inf_of_def)
  show "getWienerFilter g (w, h) = Mat_fill (w, h) (Fin 0)"
  proof (rule mat_eqI[OF is_mat_getWienerFilter is_mat_Mat_fill])
    fix r c assume rc: "r < h" "c < w"
    obtain x where x: "fst (getWienerFilter_cI g (w, h) ! r ! c) = Fin x"
      using cI_fin[OF assms(2) rc] by blast
    show "getWienerFilter g (w, h) ! r ! c = Mat_fill (w, h) (Fin 0) ! r ! c"
      using rc assms(1) by (simp add: getWienerFilter_nth x Mat_fill_nth inf_of_def)
  qed
qed


theorem wiener_snr_zero_witness:
  "snr_slider \<lparr>radius_slider = 1, snr_slider = 0\<rparr> = 0 \<and>
   getWienerFilter \<lparr>radius_slider = 1, snr_slider = 0\<rparr> (2, 2) = [[Fin 0, Fin 0], [Fin 0, Fin 0]]"
  using wiener_snr_zero[of "\<lparr>radius_slider = 1, snr_slider = 0\<rparr>" 2 2]
  by (simp add: Mat_fill_def eval_nat_numeral)

text \<open>
  Against claim C6 as stated: with \<open>snr_slider = 0\<close> the construction returns a grid.
\<close>

theorem snr_zero_no_error:
  "getWienerFilter \<lparr>radius_slider = 0, snr_slider = 0\<rparr> (2, 2) =
     [[Fin 0, Fin 0], [Fin 0, Fin 0]]"
  by (simp add: eval_defs upt_conv_Cons)

section \<open>The sum that line 113 divides by\<close>




section \<open>The construction, step by step\<close>

lemma buildDiskPSF_painted:
  "buildDiskPSF (Fin 255) (w, h) (radius_slider g) = getWienerFilter_psf g (w, h)"
proof -
  have "map (\<lambda>y. map (\<lambda>x. if in_disk (int (w div 2), int (h div 2)) (radius_slider g) x y
                             then Fin 255 else Fin 0) [0..<w]) [0..<h] = painted g (w, h)"
    by (rule mat_eqI[OF is_mat_grid is_mat_painted]) (simp add: painted_nth)
  then show ?thesis
    by (simp add: buildDiskPSF_def psf_unfold mat_div_scalar_def Let_def)
qed

text \<open>
  The program builds the two-channel input of the transform with \<open>cv::merge\<close> and a
  zero plane and calls \<open>cv::dft\<close> without flags; that is the unscaled transform of the
  real grid.
\<close>

lemma merge_zero_plane:
  assumes m: "is_mat h w F"
  shows "cv_merge (F, Mat_fill (size_of F) (Fin 0)) = map (map (\<lambda>x. (x, Fin 0))) F"
proof (cases "h = 0")
  case True
  then have "F = []" using m by (simp add: is_mat_def)
  then show ?thesis by (simp add: cv_merge_def)
next
  case False
  then have sz: "size_of F = (w, h)" using m by (simp add: size_of_is_mat)
  have z: "is_mat h w (Mat_fill (w, h) (Fin 0 :: f32))" by (rule is_mat_Mat_fill)
  show ?thesis
    unfolding sz
    by (rule mat_eqI[OF is_mat_merge[OF m z] is_mat_map[OF m]])
       (simp add: merge_nth[OF m z] Mat_fill_nth map_map_nth[OF m])
qed

lemma dft_without_flags:
  assumes "is_mat h w F"
  shows "cv_dft (cv_merge (F, Mat_fill (size_of F) (Fin 0))) [] = forwardDFT False F"
  by (simp add: cv_dft_def forwardDFT_def Let_def merge_zero_plane[OF assms])

text \<open>
  Claim C1, as the code has it. \<open>getWienerFilter\<close> computes the steps of section 4.4 in
  their order, with one difference: the forward transform of the centered PSF is the
  unscaled 2D transform (\<open>cv::dft\<close> without flags, line 135), not the transform of
  section 4.1 with its factor \<open>1/(width*height)\<close>. The steps: the disk PSF of the radius
  over the target size, the quadrant centering of the spatial PSF before any transform,
  the unscaled forward transform of the centered PSF, the real plane \<open>H\<close> of the
  spectrum, \<open>degrad = |H|^2 + 1/snr\<close> cell by cell, and the quotient \<open>H / degrad\<close> cell
  by cell.
\<close>

theorem getWienerFilter_steps:
  "getWienerFilter g (w, h) =
   wienerSteps False (Fin 255) (w, h) (radius_slider g) (snr_slider g)"
proof -
  have swap: "swapQuadrants (getWienerFilter_psf g (w, h)) =
              centerQuadrants (getWienerFilter_psf g (w, h))"
    by (rule swapQuadrants_centerQuadrants[OF is_mat_psf])
  have "getWienerFilter_cI g (w, h) = forwardDFT False (centerQuadrants (getWienerFilter_psf g (w, h)))"
    by (simp add: getWienerFilter_cI_def Let_def swap
        dft_without_flags[OF is_mat_centerQuadrants[OF is_mat_psf]])
  then show ?thesis
    unfolding getWienerFilter_unfold wienerSteps_def buildDiskPSF_painted
    by (simp add: Let_def)
qed

text \<open>
  Against claim C1 as stated, where the forward transform is that of section 4.1: on a
  2 by 1 target with radius 0 and ratio 1200 the program returns \<open>1200/1201\<close> and
  \<open>-1200/1201\<close>; the construction of section 4.4 with the scaled transform gives
  \<open>600/301\<close> and \<open>-600/301\<close>.
\<close>

theorem wiener_transform_differs_from_spec:
  "getWienerFilter \<lparr>radius_slider = 0, snr_slider = 1200\<rparr> (2, 1) =
     [[Fin (1200 / 1201), Fin (- (1200 / 1201))]] \<and>
   buildWienerFilter (Fin 255) (2, 1) 0 1200 =
     Inr [[Fin (600 / 301), Fin (- (600 / 301))]]"
  by (simp add: eval_defs buildWienerFilter_def wienerSteps_def forwardDFT_def buildDiskPSF_def
      centerQuadrants_def upt_conv_Cons)

section \<open>Which transform is scaled\<close>

lemma rows_merge_zeros: "rows (cv_merge (m, Mat_fill (size_of m) (Fin 0))) = rows m"
  by (simp add: rows_def cv_merge_def size_of_def Mat_fill_def)

lemma cols_merge_zeros: "cols (cv_merge (m, Mat_fill (size_of m) (Fin 0))) = cols m"
  by (cases m) (simp_all add: rows_def cols_def cv_merge_def size_of_def Mat_fill_def)

text \<open>
  Claim C2, as the code has it. The forward transform of the image in \<open>filter\<close> is
  scaled by \<open>1/(width*height)\<close> (\<open>DFT_SCALE\<close>, line 87), so that there the forward
  transform followed by the unscaled inverse is the identity on the real plane. The
  forward transform of the centered PSF in \<open>getWienerFilter\<close> (line 135) has no flag
  and is not scaled.
\<close>

theorem forward_scaling:
  "filter_complexI img =
     map (map (c_scale (Fin (1 / real (rows img * cols img)))))
       (dft2 False (cv_merge (img, Mat_fill (size_of img) (Fin 0))))
   \<and> getWienerFilter_cI g bbox =
     dft2 False (cv_merge (swapQuadrants (getWienerFilter_psf g bbox),
       Mat_fill (size_of (swapQuadrants (getWienerFilter_psf g bbox))) (Fin 0)))
   \<and> (is_mat h w G \<and> fin_mat G \<longrightarrow> fst (cv_split (cv_idft (filter_complexI G) [])) = G)"
proof (intro conjI impI)
  show "filter_complexI img =
     map (map (c_scale (Fin (1 / real (rows img * cols img)))))
       (dft2 False (cv_merge (img, Mat_fill (size_of img) (Fin 0))))"
    by (simp add: filter_complexI_def cv_dft_def Let_def rows_merge_zeros cols_merge_zeros)
  show "getWienerFilter_cI g bbox =
     dft2 False (cv_merge (swapQuadrants (getWienerFilter_psf g bbox),
       Mat_fill (size_of (swapQuadrants (getWienerFilter_psf g bbox))) (Fin 0)))"
    by (simp add: getWienerFilter_cI_def cv_dft_def Let_def)
next
  assume "is_mat h w G \<and> fin_mat G"
  then have "is_mat h w G" and "fin_mat G" by simp_all
  then show "fst (cv_split (cv_idft (filter_complexI G) [])) = G"
    by (rule roundtrip_real_plane)
qed

theorem forward_scaling_witness:
  "is_mat 2 1 [[Fin 1], [Fin 2]] \<and> fin_mat [[Fin 1], [Fin 2]] \<and>
   fst (cv_split (cv_idft (filter_complexI [[Fin 1], [Fin 2]]) [])) = [[Fin 1], [Fin 2]]"
proof -
  have shape: "is_mat 2 1 [[Fin 1], [Fin 2]] \<and> fin_mat [[Fin 1], [Fin 2]]"
    by (simp add: is_mat_def fin_mat_def)
  with forward_scaling[of "[[Fin 1], [Fin 2]]" "\<lparr>radius_slider = 64, snr_slider = 1200\<rparr>"
      "(1, 2)" 2 1 "[[Fin 1], [Fin 2]]"]
  show ?thesis by blast
qed

text \<open>
  Against claim C2 as stated: on a 2 by 1 target the spectrum of the centered PSF has
  the cell \<open>(1, 0)\<close> at the origin, the sum of the PSF; scaled by \<open>1/(width*height)\<close> it
  would be \<open>(1/2, 0)\<close>.
\<close>

theorem psf_transform_unscaled:
  "getWienerFilter_cI \<lparr>radius_slider = 0, snr_slider = 1200\<rparr> (2, 1) ! 0 ! 0 = (Fin 1, Fin 0) \<and>
   cv_dft (cv_merge (swapQuadrants (getWienerFilter_psf \<lparr>radius_slider = 0, snr_slider = 1200\<rparr> (2, 1)),
                     Mat_fill (2, 1) (Fin 0))) [DFT_SCALE] ! 0 ! 0 = (Fin (1 / 2), Fin 0)"
  by (simp add: eval_defs upt_conv_Cons)

section \<open>What the result depends on\<close>

text \<open>
  Claim C5, as the code has it. The radius and the ratio are not arguments:
  \<open>getWienerFilter\<close> reads the module-level \<open>radius_slider\<close> and \<open>snr_slider\<close>, and the
  slider position passed to the two callbacks is not used. Two calls with the same size
  (the same image) give the same result whenever these two variables hold the same
  values at both calls, whatever the rest of the state is.
\<close>

theorem wiener_reads_globals:
  fixes g :: "'a globals_scheme" and g' :: "'b globals_scheme"
  assumes "radius_slider g = radius_slider g'" and "snr_slider g = snr_slider g'"
  shows "getWienerFilter g bbox = getWienerFilter g' bbox \<and>
         on_radius_trackbar g pos img = on_radius_trackbar g' pos' img \<and>
         on_snr_trackbar g pos img = on_snr_trackbar g' pos' img"
proof -
  have "getWienerFilter_psf g bbox = getWienerFilter_psf g' bbox"
    using assms(1) by (simp add: getWienerFilter_psf_def)
  then have "getWienerFilter_cI g bbox = getWienerFilter_cI g' bbox" for bbox
    using assms(1) by (simp add: getWienerFilter_cI_def getWienerFilter_psf_def)
  then have "getWienerFilter g bbox = getWienerFilter g' bbox" for bbox
    using assms(2) by (simp add: getWienerFilter_blocks)
  then show ?thesis
    by (simp add: on_radius_trackbar_def on_snr_trackbar_def)
qed

theorem wiener_reads_globals_witness:
  "radius_slider \<lparr>radius_slider = 64, snr_slider = 1200\<rparr> =
     radius_slider \<lparr>radius_slider = 64, snr_slider = 1200, \<dots> = True\<rparr> \<and>
   getWienerFilter \<lparr>radius_slider = 64, snr_slider = 1200\<rparr> (4, 4) =
     getWienerFilter \<lparr>radius_slider = 64, snr_slider = 1200, \<dots> = True\<rparr> (4, 4)"
  using wiener_reads_globals[of "\<lparr>radius_slider = 64, snr_slider = 1200\<rparr>"
      "\<lparr>radius_slider = 64, snr_slider = 1200, \<dots> = True\<rparr>" "(4, 4)"]
  by simp

text \<open>
  Against claim C5 as stated: two calls with the same argument and different values of
  the module-level \<open>snr_slider\<close> give different results.
\<close>

theorem wiener_not_pure_in_arguments:
  "getWienerFilter \<lparr>radius_slider = 0, snr_slider = 1200\<rparr> (2, 2) =
     [[Fin (1200 / 1201), Fin (1200 / 1201)], [Fin (1200 / 1201), Fin (1200 / 1201)]] \<and>
   getWienerFilter \<lparr>radius_slider = 0, snr_slider = 2000\<rparr> (2, 2) =
     [[Fin (2000 / 2001), Fin (2000 / 2001)], [Fin (2000 / 2001), Fin (2000 / 2001)]] \<and>
   getWienerFilter \<lparr>radius_slider = 0, snr_slider = 1200\<rparr> (2, 2) \<noteq>
     getWienerFilter \<lparr>radius_slider = 0, snr_slider = 2000\<rparr> (2, 2)"
  by (simp add: eval_defs upt_conv_Cons)

end
